theory Spec2Isabelle
  imports Main
begin

section \<open>Errors and byte strings\<close>

text \<open>
  Go's \<^verbatim>\<open>[]byte\<close> and \<^verbatim>\<open>string\<close> are byte sequences; both are modelled as
  \<^typ>\<open>string\<close>, a list of 8-bit characters. An \<^verbatim>\<open>error\<close> value is either
  \<^verbatim>\<open>io.EOF\<close> or some other failure carrying its message; Go's \<^verbatim>\<open>nil\<close> error is
  \<open>None\<close> of \<open>error option\<close>.
\<close>

datatype error = EOF | Failure string

definition nl :: char where
  "nl = CHR 0x0A"

text \<open>\<^verbatim>\<open>bytes.IndexByte\<close>: the index of the first occurrence of \<open>c\<close>, or \<open>-1\<close>.\<close>

fun IndexByte :: "string \<Rightarrow> char \<Rightarrow> int" where
  "IndexByte [] c = -1"
| "IndexByte (x # xs) c =
     (if x = c then 0
      else (let i = IndexByte xs c in if i < 0 then -1 else i + 1))"

subsection \<open>\<^verbatim>\<open>bytes.TrimSpace\<close>\<close>

text \<open>
  The library scans from each end over the six ASCII white-space bytes. When a scan meets a
  byte \<open>\<ge> 0x80\<close> (\<^verbatim>\<open>utf8.RuneSelf\<close>) it hands the remaining slice to the Unicode-aware
  \<^verbatim>\<open>TrimFunc(_, unicode.IsSpace)\<close>, which is not part of this repository and is the
  parameter \<open>uni\<close> below.
\<close>

definition asciiSpace :: "char \<Rightarrow> bool" where
  "asciiSpace c = (c = CHR 0x09 \<or> c = CHR 0x0A \<or> c = CHR 0x0B \<or> c = CHR 0x0C
                   \<or> c = CHR 0x0D \<or> c = CHR 0x20)"

definition RuneSelf :: nat where
  "RuneSelf = 0x80"

datatype scan = Fast string | Slow string

text \<open>The first loop of \<^verbatim>\<open>TrimSpace\<close>: advance \<^verbatim>\<open>start\<close>.\<close>

fun scanStart :: "string \<Rightarrow> scan" where
  "scanStart [] = Fast []"
| "scanStart (c # cs) =
     (if of_char c \<ge> RuneSelf then Slow (c # cs)
      else if asciiSpace c then scanStart cs
      else Fast (c # cs))"

text \<open>The second loop: retreat \<^verbatim>\<open>stop\<close>. The argument is the slice reversed.\<close>

fun scanStop :: "string \<Rightarrow> scan" where
  "scanStop [] = Fast []"
| "scanStop (c # cs) =
     (if of_char c \<ge> RuneSelf then Slow (rev (c # cs))
      else if asciiSpace c then scanStop cs
      else Fast (rev (c # cs)))"

definition TrimSpace :: "(string \<Rightarrow> string) \<Rightarrow> string \<Rightarrow> string" where
  "TrimSpace uni s =
     (case scanStart s of
        Slow r \<Rightarrow> uni r
      | Fast r \<Rightarrow> (case scanStop (rev r) of Slow r' \<Rightarrow> uni r' | Fast r' \<Rightarrow> r'))"

section \<open>Line Source: \<^verbatim>\<open>gcodeLines\<close>\<close>

text \<open>
  A \<^verbatim>\<open>bufio.Reader\<close> over the file: the bytes not yet consumed, and the error the
  underlying read reports once they are used up (\<open>EOF\<close> for a file read to its end).
\<close>

record reader =
  pending :: string
  at_end :: error

text \<open>
  \<^verbatim>\<open>ReadBytes(delim)\<close>: the bytes up to and including the first \<open>delim\<close> and no error;
  without a \<open>delim\<close>, everything that is left together with the reader's error.
\<close>

definition ReadBytes :: "reader \<Rightarrow> char \<Rightarrow> string \<times> error option \<times> reader" where
  "ReadBytes r delim =
     (let i = IndexByte (pending r) delim in
      if i \<ge> 0 then (take (nat i + 1) (pending r), None,
                      r\<lparr>pending := drop (nat i + 1) (pending r)\<rparr>)
      else (pending r, Some (at_end r), r\<lparr>pending := []\<rparr>))"

lemma IndexByte_bound: "IndexByte s c < int (length s)"
  by (induction s) (auto simp: Let_def)

lemma ReadBytes_shrinks:
  "ReadBytes r d = (s, None, r') \<Longrightarrow> length (pending r') < length (pending r)"
  using IndexByte_bound [of "pending r" d]
  by (auto simp: ReadBytes_def Let_def split: if_splits)

text \<open>Comment stripping: \<^verbatim>\<open>if i := bytes.IndexByte(s, ';'); i >= 0 { s = s[:i] }\<close>.\<close>

definition cut_comment :: "string \<Rightarrow> string" where
  "cut_comment s = (let i = IndexByte s (CHR '';'') in if i \<ge> 0 then take (nat i) s else s)"

text \<open>
  The producer loop of \<^verbatim>\<open>gcodeLines\<close>: the lines handed to the channel, in order, and the
  value of \<^verbatim>\<open>err\<close> when the loop is left.
\<close>

function gcodeLoop :: "(string \<Rightarrow> string) \<Rightarrow> reader \<Rightarrow> string list \<times> error option" where
  "gcodeLoop uni r =
     (case ReadBytes r nl of (s, err, r') \<Rightarrow>
        if length s = 0 then ([], err)
        else
          (let s1 = cut_comment s;
               s2 = TrimSpace uni s1;
               out = (if length s2 = 0 then [] else [s2])
           in if err = None
              then (case gcodeLoop uni r' of (rest, e) \<Rightarrow> (out @ rest, e))
              else (out, err)))"
  by pat_completeness auto
termination
  by (relation "measure (\<lambda>(uni, r). length (pending r))") (auto dest: ReadBytes_shrinks [OF sym])

declare gcodeLoop.simps [simp del]

text \<open>
  How the producer ends: it closes the channel, or \<^verbatim>\<open>log.Fatal\<close> exits the process
  when the loop was left with anything but \<^verbatim>\<open>io.EOF\<close>.
\<close>

datatype ending = Closed | Fatal "error option"

definition gcodeLines :: "(string \<Rightarrow> string) \<Rightarrow> reader \<Rightarrow> string list \<times> ending" where
  "gcodeLines uni f =
     (case gcodeLoop uni f of (ls, err) \<Rightarrow>
        (ls, if err \<noteq> Some EOF then Fatal err else Closed))"

section \<open>Fixed Sequence Source: \<^verbatim>\<open>stopGCode\<close>\<close>

definition stop_gcode :: string where
  "stop_gcode = ''M107'' @ [nl] @ ''M104 S0'' @ [nl] @ ''M140 S0'' @ [nl]
                @ ''G1 Z50'' @ [nl] @ ''M84 Z E'' @ [nl]"

text \<open>
  The producer loop of \<^verbatim>\<open>stopGCode\<close> over a \<^verbatim>\<open>bytes.Buffer\<close>, whose \<^verbatim>\<open>ReadBytes\<close>
  behaves as the reader's: a chunk longer than one byte is sent without its last byte.
\<close>

function stopLoop :: "reader \<Rightarrow> string list \<times> error option" where
  "stopLoop buf =
     (case ReadBytes buf nl of (ln, err, buf') \<Rightarrow>
        (let out = (if length ln > 1 then [take (length ln - 1) ln] else [])
         in if err \<noteq> None then (out, err)
            else (case stopLoop buf' of (rest, e) \<Rightarrow> (out @ rest, e))))"
  by pat_completeness auto
termination
  by (relation "measure (\<lambda>r. length (pending r))") (auto dest: ReadBytes_shrinks [OF sym])

declare stopLoop.simps [simp del]

text \<open>
  Every call builds a new buffer over \<open>stop_gcode\<close>; the result is what the new channel
  delivers before it is closed. (The loop's error is only logged.)
\<close>

definition stopGCode :: "string list" where
  "stopGCode = fst (stopLoop \<lparr>pending = stop_gcode, at_end = EOF\<rparr>)"

section \<open>Transport Reader: \<^verbatim>\<open>serialRecv\<close> and \<^verbatim>\<open>serialRecvChan\<close>\<close>

text \<open>
  How the port's input ends after the lines it delivers: the port stays open and silent, so
  that \<^verbatim>\<open>Scan()\<close> blocks for good, or the input ends and \<^verbatim>\<open>Scan()\<close> returns false,
  with what \<^verbatim>\<open>Err()\<close> then reports (\<open>None\<close> at end of input).
\<close>

datatype port_end = StaysOpen | Ends "error option"

text \<open>A \<^verbatim>\<open>bufio.Scanner\<close> over the port: the lines it will still return, and the end.\<close>

record scanner =
  tokens :: "string list"
  scan_end :: port_end

text \<open>
  The scan loop of \<^verbatim>\<open>serialRecv\<close>: the collected lines, whether \<^verbatim>\<open>"ok"\<close> ended the
  loop, and the lines not yet scanned; \<open>None\<close> when the loop never ends, \<^verbatim>\<open>Scan()\<close>
  blocking on an open port.
\<close>

fun recvScan ::
  "port_end \<Rightarrow> string list \<Rightarrow> string list \<Rightarrow> (string list \<times> bool \<times> string list) option"
where
  "recvScan pe lines [] =
     (case pe of StaysOpen \<Rightarrow> None | Ends e \<Rightarrow> Some (lines, False, []))"
| "recvScan pe lines (ln # rest) =
     (if ln = ''ok'' then Some (lines, True, rest)
      else if ln = [] then recvScan pe lines rest
      else recvScan pe (lines @ [ln]) rest)"

text \<open>\<^verbatim>\<open>scan.Err()\<close>, asked after \<^verbatim>\<open>Scan()\<close> has returned false.\<close>

definition Err :: "scanner \<Rightarrow> error option" where
  "Err scan = (case scan_end scan of Ends e \<Rightarrow> e | StaysOpen \<Rightarrow> None)"

text \<open>\<^verbatim>\<open>serialRecv\<close>: its results and the scanner after the call; \<open>None\<close> when it never returns.\<close>

definition serialRecv :: "scanner \<Rightarrow> ((string list \<times> error option) \<times> scanner) option" where
  "serialRecv scan =
     (case recvScan (scan_end scan) [] (tokens scan) of
        None \<Rightarrow> None
      | Some (lines, True, rest) \<Rightarrow> Some ((lines, None), scan\<lparr>tokens := rest\<rparr>)
      | Some (lines, False, rest) \<Rightarrow>
          Some ((lines, Some (case Err scan of None \<Rightarrow> EOF | Some e \<Rightarrow> e)),
                scan\<lparr>tokens := rest\<rparr>))"

text \<open>
  What the reader goroutine does, in order: a line taken from the scanner, a line printed
  on the terminal, a value sent on the readiness channel.
\<close>

datatype rx = Scanned string | Printed string | Pulse "error option"

lemma recvScan_ok_shrinks:
  "recvScan pe acc ts = Some (ls, True, rest) \<Longrightarrow> length rest < length ts"
  by (induction ts arbitrary: acc) (auto split: if_splits port_end.splits intro: less_SucI)

lemma serialRecv_shrinks:
  "serialRecv scan = Some ((res, None), scan') \<Longrightarrow> length (tokens scan') < length (tokens scan)"
  by (auto simp: serialRecv_def split: option.splits prod.splits bool.splits
           dest: recvScan_ok_shrinks)

text \<open>
  The loop of the reader goroutine. The lines one call of \<^verbatim>\<open>serialRecv\<close> scanned are
  those the scanner held before the call and no longer holds after it. When the call
  never returns, the goroutine has scanned every line the port delivered and then waits:
  it prints nothing more and sends no pulse.
\<close>

function recvChanLoop :: "scanner \<Rightarrow> rx list" where
  "recvChanLoop scan =
     (case serialRecv scan of
        None \<Rightarrow> map Scanned (tokens scan)
      | Some ((res, err), scan') \<Rightarrow>
          map Scanned (take (length (tokens scan) - length (tokens scan')) (tokens scan))
          @ (if length res > 0 then map (\<lambda>ln. Printed (''<< '' @ ln @ [nl])) res else [])
          @ [Pulse err]
          @ (if err = None then recvChanLoop scan' else []))"
  by pat_completeness auto
termination
  by (relation "measure (\<lambda>s. length (tokens s))")
     (auto dest: serialRecv_shrinks serialRecv_shrinks [OF sym])

declare recvChanLoop.simps [simp del]

definition serialRecvChan :: "scanner \<Rightarrow> rx list" where
  "serialRecvChan r = Pulse None # recvChanLoop r"

section \<open>Control Menu and Control Loop\<close>

datatype ctrlChoice = ctrlContinue | ctrlStop | ctrlAbort | ctrlHackerMode

text \<open>
  \<^verbatim>\<open>controlMenu\<close> over the answers it receives from the operator: \<^verbatim>\<open>"l"\<close> and invalid
  entries prompt again. The input channel is never closed, so with no valid answer the menu
  keeps waiting: \<open>None\<close>.
\<close>

fun controlMenu :: "string list \<Rightarrow> ctrlChoice option" where
  "controlMenu [] = None"
| "controlMenu (ans # userin) =
     (if ans = ''c'' then Some ctrlContinue
      else if ans = ''s'' then Some ctrlStop
      else if ans = ''a'' then Some ctrlAbort
      else if ans = ''h'' then Some ctrlHackerMode
      else controlMenu userin)"

text \<open>
  The variable \<^verbatim>\<open>gcode\<close> of the loop: the file's channel, or a channel made by
  \<^verbatim>\<open>stopGCode()\<close> with the lines it has not delivered yet.
\<close>

datatype feed = FileFeed | StopFeed "string list"

datatype status = Running | InMenu | Panicked | Stopped

text \<open>
  What the loop does to the outside: a line handed to the writer's channel (with the value
  \<^verbatim>\<open>d.ready\<close> had when \<^verbatim>\<open>send\<close> was called), an error logged, the channel closed, the
  elapsed time logged.
\<close>

datatype effect = Send bool string | LogErr error | CloseSend | Elapsed int

text \<open>
  The dripper and the locals of \<^verbatim>\<open>loop\<close>. \<open>gcode_file\<close> holds the lines the file's channel
  will still deliver. \<open>d_hack_queue\<close> is the field \<^verbatim>\<open>d.hack_queue\<close>; \<open>hack_queue\<close> is the
  local variable of the same name, declared and never assigned.
\<close>

record dripper =
  gcode_file :: "string list"
  d_hack_queue :: "string list"
  ready :: bool
  hack_queue :: "string list"
  hack_mode :: bool
  gcode :: feed
  start :: int
  status :: status
  effects :: "effect list"

definition newDripper :: "string list \<Rightarrow> int \<Rightarrow> dripper" where
  "newDripper file_lines t0 =
     \<lparr>gcode_file = file_lines, d_hack_queue = [], ready = False, hack_queue = [],
      hack_mode = False, gcode = FileFeed, start = t0, status = Running, effects = []\<rparr>"

definition send :: "dripper \<Rightarrow> string \<Rightarrow> dripper" where
  "send d line = d\<lparr>ready := False, effects := effects d @ [Send (ready d) line]\<rparr>"

text \<open>Leaving the loop: close the writer's channel and log the time since \<open>start\<close>.\<close>

definition finish :: "int \<Rightarrow> dripper \<Rightarrow> dripper" where
  "finish now d =
     d\<lparr>status := Stopped, effects := effects d @ [CloseSend, Elapsed (now - start d)]\<rparr>"

text \<open>The receive \<^verbatim>\<open>line, ok := <-gcode\<close> and what follows it.\<close>

definition pull :: "int \<Rightarrow> dripper \<Rightarrow> dripper" where
  "pull now d =
     (case gcode d of
        FileFeed \<Rightarrow>
          (case gcode_file d of
             [] \<Rightarrow> finish now d
           | line # rest \<Rightarrow> send (d\<lparr>gcode_file := rest\<rparr>) line)
      | StopFeed [] \<Rightarrow> finish now d
      | StopFeed (line # rest) \<Rightarrow> send (d\<lparr>gcode := StopFeed rest\<rparr>) line)"

text \<open>
  What \<^verbatim>\<open>select\<close> can receive: a line of the operator, an interrupt (with the answers the
  menu then reads), a value of the readiness channel, or that channel found closed. Lines
  that \<^verbatim>\<open>flushUserInput\<close> discards reach neither the menu nor the loop and are no events.
\<close>

datatype event = UserLine string | Interrupt "string list" | Ready "error option" | ReadyClosed

text \<open>One iteration of the loop; \<open>now\<close> is the clock's reading should the loop end here.\<close>

definition step :: "int \<Rightarrow> dripper \<Rightarrow> event \<Rightarrow> dripper" where
  "step now d ev =
     (if status d \<noteq> Running then d
      else case ev of
        UserLine line \<Rightarrow>
          (if hack_mode d
           then (if ready d then send d line
                 else d\<lparr>d_hack_queue := d_hack_queue d @ [line]\<rparr>)
           else d)
      | Interrupt answers \<Rightarrow>
          (let d1 = d\<lparr>hack_mode := False\<rparr> in
           case controlMenu answers of
             None \<Rightarrow> d1\<lparr>status := InMenu\<rparr>
           | Some ctrlContinue \<Rightarrow> d1\<lparr>gcode := FileFeed\<rparr>
           | Some ctrlStop \<Rightarrow> d1\<lparr>gcode := StopFeed stopGCode\<rparr>
           | Some ctrlAbort \<Rightarrow> finish now d1
           | Some ctrlHackerMode \<Rightarrow> d1\<lparr>hack_mode := True\<rparr>)
      | Ready err \<Rightarrow>
          (let d1 = d\<lparr>ready := True\<rparr> in
           case err of
             Some e \<Rightarrow> finish now (d1\<lparr>effects := effects d1 @ [LogErr e]\<rparr>)
           | None \<Rightarrow>
               if hack_mode d1
               then (if length (d_hack_queue d1) > 0
                     then (case hack_queue d1 of
                             [] \<Rightarrow> d1\<lparr>status := Panicked\<rparr>
                           | line # _ \<Rightarrow>
                               (let d2 = send d1 line
                                in d2\<lparr>d_hack_queue := tl (d_hack_queue d2)\<rparr>))
                     else d1)
               else pull now d1)
      | ReadyClosed \<Rightarrow> finish now (d\<lparr>ready := True\<rparr>))"

text \<open>The loop over the events \<^verbatim>\<open>select\<close> receives, each with the clock's reading.\<close>

fun run :: "dripper \<Rightarrow> (int \<times> event) list \<Rightarrow> dripper" where
  "run d [] = d"
| "run d ((now, ev) # evs) = run (step now d ev) evs"

section \<open>The Line Source against the file's physical lines\<close>

text \<open>
  The specification's description of the Line Source, to be compared with \<open>gcodeLines\<close>:
  the physical lines of the file (each with its terminating newline, the last one possibly
  without), cut at the first \<open>;\<close>, white space trimmed at both ends, the empty results
  dropped. None of these definitions uses an operation of the code.
\<close>

fun physical_lines :: "string \<Rightarrow> string list" where
  "physical_lines [] = []"
| "physical_lines (c # cs) =
     (if c = nl then [c] # physical_lines cs
      else (case physical_lines cs of
              [] \<Rightarrow> [[c]]
            | l # ls \<Rightarrow> (c # l) # ls))"

definition strip_comment :: "string \<Rightarrow> string" where
  "strip_comment l = takeWhile (\<lambda>c. c \<noteq> CHR '';'') l"

text \<open>
  White space, as byte strings: the characters with the Unicode property White_Space in
  UTF-8, that is the six ASCII characters tab, line feed, vertical tab, form feed, carriage
  return and space, then U+0085, U+00A0, U+1680, U+2000 to U+200A, U+2028, U+2029, U+202F,
  U+205F and U+3000.
\<close>

definition white_space :: "string list" where
  "white_space =
     [[CHR 0x09], [CHR 0x0A], [CHR 0x0B], [CHR 0x0C], [CHR 0x0D], [CHR 0x20],
      [CHR 0xC2, CHR 0x85], [CHR 0xC2, CHR 0xA0],
      [CHR 0xE1, CHR 0x9A, CHR 0x80],
      [CHR 0xE2, CHR 0x80, CHR 0x80], [CHR 0xE2, CHR 0x80, CHR 0x81],
      [CHR 0xE2, CHR 0x80, CHR 0x82], [CHR 0xE2, CHR 0x80, CHR 0x83],
      [CHR 0xE2, CHR 0x80, CHR 0x84], [CHR 0xE2, CHR 0x80, CHR 0x85],
      [CHR 0xE2, CHR 0x80, CHR 0x86], [CHR 0xE2, CHR 0x80, CHR 0x87],
      [CHR 0xE2, CHR 0x80, CHR 0x88], [CHR 0xE2, CHR 0x80, CHR 0x89],
      [CHR 0xE2, CHR 0x80, CHR 0x8A],
      [CHR 0xE2, CHR 0x80, CHR 0xA8], [CHR 0xE2, CHR 0x80, CHR 0xA9],
      [CHR 0xE2, CHR 0x80, CHR 0xAF], [CHR 0xE2, CHR 0x81, CHR 0x9F],
      [CHR 0xE3, CHR 0x80, CHR 0x80]]"

text \<open>
  Trimming removes white space from the front for as long as there is some, then from the
  back in the same way. \<open>strip_tokens ws\<close> removes leading members of \<open>ws\<close>.
\<close>

definition starts_with :: "string \<Rightarrow> string \<Rightarrow> bool" where
  "starts_with s w = (w \<noteq> [] \<and> take (length w) s = w)"

lemma starts_with_shorter: "starts_with s w \<Longrightarrow> length (drop (length w) s) < length s"
  by (cases s) (auto simp: starts_with_def)

function strip_tokens :: "string list \<Rightarrow> string \<Rightarrow> string" where
  "strip_tokens ws s =
     (case find (starts_with s) ws of
        None \<Rightarrow> s
      | Some w \<Rightarrow> strip_tokens ws (drop (length w) s))"
  by pat_completeness auto
termination
proof (relation "measure (\<lambda>(ws, s). length s)")
  show "wf (measure (\<lambda>(ws, s). length s))" by simp
next
  fix ws :: "string list" and s w :: string
  assume "find (starts_with s) ws = Some w"
  then have "starts_with s w"
    by (auto simp: find_Some_iff)
  then have "length (drop (length w) s) < length s"
    by (rule starts_with_shorter)
  then show "((ws, drop (length w) s), (ws, s)) \<in> measure (\<lambda>(ws, s). length s)"
    by simp
qed

declare strip_tokens.simps [simp del]

definition strip_leading :: "string \<Rightarrow> string" where
  "strip_leading s = strip_tokens white_space s"

definition strip_trailing :: "string \<Rightarrow> string" where
  "strip_trailing s = rev (strip_tokens (map rev white_space) (rev s))"

definition trim_space :: "string \<Rightarrow> string" where
  "trim_space s = strip_trailing (strip_leading s)"

definition command_lines :: "string \<Rightarrow> string list" where
  "command_lines f =
     filter (\<lambda>l. l \<noteq> []) (map (\<lambda>l. trim_space (strip_comment l)) (physical_lines f))"

text \<open>
  The same pipeline with the code's own \<^verbatim>\<open>TrimSpace\<close>: what the producer loop is shown
  to hand over, before \<^verbatim>\<open>TrimSpace\<close> is compared with \<open>trim_space\<close>.
\<close>

definition yielded :: "(string \<Rightarrow> string) \<Rightarrow> string \<Rightarrow> string list" where
  "yielded uni f =
     filter (\<lambda>l. l \<noteq> []) (map (\<lambda>l. TrimSpace uni (strip_comment l)) (physical_lines f))"

lemma IndexByte_absent: "IndexByte s c < 0 \<longleftrightarrow> c \<notin> set s"
  by (induction s) (auto simp: Let_def)

lemma IndexByte_nonneg: "0 \<le> IndexByte s c \<longleftrightarrow> c \<in> set s"
  using IndexByte_absent [of s c] by linarith

lemma IndexByte_takeWhile: "c \<in> set s \<Longrightarrow> nat (IndexByte s c) = length (takeWhile (\<lambda>x. x \<noteq> c) s)"
  by (induction s) (auto simp: Let_def IndexByte_absent nat_add_distrib IndexByte_nonneg)

lemma take_IndexByte:
  "(if IndexByte s c \<ge> 0 then take (nat (IndexByte s c)) s else s) = takeWhile (\<lambda>x. x \<noteq> c) s"
proof (cases "c \<in> set s")
  case True
  then show ?thesis
    by (simp add: IndexByte_nonneg IndexByte_takeWhile takeWhile_eq_take [symmetric])
next
  case False
  then have tw: "takeWhile (\<lambda>x. x \<noteq> c) s = s"
    by (auto simp: takeWhile_eq_all_conv)
  show ?thesis
    unfolding tw using False by (simp add: IndexByte_nonneg)
qed

lemma cut_comment_takeWhile: "cut_comment s = strip_comment s"
  using take_IndexByte [of s "CHR '';''"] by (simp add: cut_comment_def strip_comment_def Let_def)

lemma physical_lines_no_nl: "s \<noteq> [] \<Longrightarrow> nl \<notin> set s \<Longrightarrow> physical_lines s = [s]"
proof (induction s)
  case Nil
  then show ?case by simp
next
  case (Cons c cs)
  then show ?case by (cases cs) auto
qed

lemma physical_lines_first:
  "nl \<notin> set l \<Longrightarrow> physical_lines (l @ nl # rest) = (l @ [nl]) # physical_lines rest"
  by (induction l) auto

text \<open>
  \<open>physical_lines\<close> cuts the file after each newline and nowhere else: the pieces make up
  the file, none is empty, and a newline occurs in a piece only as its last byte.
\<close>

lemma physical_lines_concat: "concat (physical_lines f) = f"
  by (induction f) (auto split: list.splits)

lemma physical_lines_shape:
  "l \<in> set (physical_lines f) \<Longrightarrow> l \<noteq> [] \<and> nl \<notin> set (butlast l)"
  by (induction f arbitrary: l) (auto split: if_splits list.splits)

lemma ReadBytes_line:
  "nl \<in> set (pending r) \<Longrightarrow>
   ReadBytes r nl =
     (takeWhile (\<lambda>x. x \<noteq> nl) (pending r) @ [nl], None,
      r\<lparr>pending := tl (dropWhile (\<lambda>x. x \<noteq> nl) (pending r))\<rparr>)"
proof -
  assume a: "nl \<in> set (pending r)"
  let ?p = "pending r"
  let ?n = "length (takeWhile (\<lambda>x. x \<noteq> nl) ?p)"
  have i: "nat (IndexByte ?p nl) = ?n" using a by (rule IndexByte_takeWhile)
  have split: "?p = takeWhile (\<lambda>x. x \<noteq> nl) ?p @ nl # tl (dropWhile (\<lambda>x. x \<noteq> nl) ?p)"
    using a by (metis (mono_tags, lifting) hd_dropWhile list.collapse dropWhile_eq_Nil_conv takeWhile_dropWhile_id)
  have t: "take (?n + 1) ?p = takeWhile (\<lambda>x. x \<noteq> nl) ?p @ [nl]"
    by (subst split) simp
  have d: "drop (?n + 1) ?p = tl (dropWhile (\<lambda>x. x \<noteq> nl) ?p)"
    by (subst split) simp
  show ?thesis
    using a i t d by (simp add: ReadBytes_def Let_def IndexByte_nonneg)
qed

lemma ReadBytes_rest:
  "nl \<notin> set (pending r) \<Longrightarrow> ReadBytes r nl = (pending r, Some (at_end r), r\<lparr>pending := []\<rparr>)"
  using IndexByte_absent [of "pending r" nl] by (simp add: ReadBytes_def Let_def)

lemma gcodeLoop_lines:
  "gcodeLoop uni r = (yielded uni (pending r), Some (at_end r))"
proof (induction uni r rule: gcodeLoop.induct)
  case (1 uni r)
  show ?case
  proof (cases "nl \<in> set (pending r)")
    case False
    show ?thesis
    proof (cases "pending r = []")
      case True
      then show ?thesis
        using False by (subst gcodeLoop.simps) (simp add: ReadBytes_rest yielded_def)
    next
      case ne: False
      then show ?thesis
        using False
        by (subst gcodeLoop.simps)
           (simp add: ReadBytes_rest yielded_def physical_lines_no_nl
              cut_comment_takeWhile Let_def)
    qed
  next
    case True
    let ?l = "takeWhile (\<lambda>x. x \<noteq> nl) (pending r)"
    let ?rest = "tl (dropWhile (\<lambda>x. x \<noteq> nl) (pending r))"
    let ?r' = "r\<lparr>pending := ?rest\<rparr>"
    have rb: "ReadBytes r nl = (?l @ [nl], None, ?r')" using True by (rule ReadBytes_line)
    have split: "pending r = ?l @ nl # ?rest"
      using True by (metis (mono_tags, lifting) hd_dropWhile list.collapse dropWhile_eq_Nil_conv takeWhile_dropWhile_id)
    have "nl \<notin> set ?l" by (auto dest: set_takeWhileD)
    then have pl: "physical_lines (pending r) = (?l @ [nl]) # physical_lines ?rest"
      by (subst split) (rule physical_lines_first)
    have ih: "gcodeLoop uni ?r' = (yielded uni ?rest, Some (at_end r))"
      using "1.IH" [OF rb [symmetric]] by (simp add: Let_def)
    show ?thesis
      by (subst gcodeLoop.simps)
         (simp add: rb ih pl yielded_def cut_comment_takeWhile Let_def)
  qed
qed

lemma physical_lines_eq_Nil: "physical_lines s = [] \<longleftrightarrow> s = []"
  by (cases s) (auto split: list.splits)

lemma physical_lines_append_nl:
  "physical_lines (xs @ nl # ys) = physical_lines (xs @ [nl]) @ physical_lines ys"
  by (induction xs) (auto simp: physical_lines_eq_Nil split: list.splits)

lemma physical_lines_snoc:
  assumes "before = [] \<or> last before = nl" and "l \<noteq> []" and "nl \<notin> set l"
  shows "physical_lines (before @ l) = physical_lines before @ [l]"
proof (cases "before = []")
  case True
  then show ?thesis using assms by (simp add: physical_lines_no_nl)
next
  case False
  then obtain xs where b: "before = xs @ [nl]"
    using assms(1) by (metis append_butlast_last_id)
  have "physical_lines (xs @ nl # l) = physical_lines (xs @ [nl]) @ physical_lines l"
    by (rule physical_lines_append_nl)
  then show ?thesis
    using assms b by (simp add: physical_lines_no_nl)
qed

text \<open>
  What ties the code's table \<open>asciiSpace\<close> to a list of white-space strings: each string
  is one byte of the table or consists of non-ASCII bytes only, and every byte of the table
  is in the list. It holds of \<open>white_space\<close>, read forwards and backwards.
\<close>

definition good_tokens :: "string list \<Rightarrow> bool" where
  "good_tokens ws \<longleftrightarrow>
     (\<forall>w \<in> set ws. w \<noteq> [] \<and> ((length w = 1 \<and> asciiSpace (hd w)) \<or> (\<forall>b \<in> set w. RuneSelf \<le> of_char b)))
     \<and> (\<forall>c. asciiSpace c \<longrightarrow> [c] \<in> set ws)"

lemma asciiSpace_ascii: "asciiSpace c \<Longrightarrow> \<not> RuneSelf \<le> of_char c"
  by (auto simp: asciiSpace_def RuneSelf_def)

lemma good_white_space: "good_tokens white_space"
  unfolding good_tokens_def
proof (intro conjI allI impI)
  show "\<forall>w \<in> set white_space. w \<noteq> [] \<and> ((length w = 1 \<and> asciiSpace (hd w)) \<or> (\<forall>b \<in> set w. RuneSelf \<le> of_char b))"
    by (simp add: white_space_def asciiSpace_def RuneSelf_def)
  fix c assume "asciiSpace c"
  then show "[c] \<in> set white_space"
    by (auto simp: asciiSpace_def white_space_def)
qed

lemma good_white_space_rev: "good_tokens (map rev white_space)"
  unfolding good_tokens_def
proof (intro conjI allI impI)
  show "\<forall>w \<in> set (map rev white_space). w \<noteq> [] \<and> ((length w = 1 \<and> asciiSpace (hd w)) \<or> (\<forall>b \<in> set w. RuneSelf \<le> of_char b))"
    by (simp add: white_space_def asciiSpace_def RuneSelf_def)
  fix c assume "asciiSpace c"
  then show "[c] \<in> set (map rev white_space)"
    by (auto simp: asciiSpace_def white_space_def)
qed

lemma find_SomeD: "find P xs = Some x \<Longrightarrow> x \<in> set xs \<and> P x"
  by (auto simp: find_Some_iff)

lemma starts_with_hd: "starts_with (c # cs) w \<Longrightarrow> hd w = c \<and> w \<noteq> []"
  by (cases w) (auto simp: starts_with_def)

lemma strip_tokens_Nil: "strip_tokens ws [] = []"
  by (subst strip_tokens.simps) (auto simp: starts_with_def split: option.splits dest!: find_SomeD)

lemma strip_tokens_space:
  assumes "good_tokens ws" and "asciiSpace c"
  shows "strip_tokens ws (c # cs) = strip_tokens ws cs"
proof -
  have "[c] \<in> set ws" using assms by (simp add: good_tokens_def)
  moreover have "starts_with (c # cs) [c]" by (simp add: starts_with_def)
  ultimately have "find (starts_with (c # cs)) ws \<noteq> None"
    by (auto simp: find_None_iff)
  then obtain w where f: "find (starts_with (c # cs)) ws = Some w" by auto
  then have w: "w \<in> set ws" "starts_with (c # cs) w" by (auto dest: find_SomeD)
  then have "hd w = c \<and> w \<noteq> []"
    by (auto dest: starts_with_hd)
  then have hd: "hd w = c" "w \<noteq> []"
    by simp_all
  have "length w = 1"
  proof (rule ccontr)
    assume "length w \<noteq> 1"
    then have "\<forall>b \<in> set w. RuneSelf \<le> of_char b"
      using assms(1) w(1) by (auto simp: good_tokens_def)
    then have "RuneSelf \<le> of_char c" using hd by (metis list.set_sel(1))
    then show False using assms(2) asciiSpace_ascii by blast
  qed
  then show ?thesis
    by (subst strip_tokens.simps) (simp add: f)
qed

lemma strip_tokens_ascii:
  assumes "good_tokens ws" and "\<not> asciiSpace c" and "\<not> RuneSelf \<le> of_char c"
  shows "strip_tokens ws (c # cs) = c # cs"
proof -
  have "\<not> starts_with (c # cs) w" if "w \<in> set ws" for w
  proof
    assume s: "starts_with (c # cs) w"
    then have "hd w = c \<and> w \<noteq> []"
      by (auto dest: starts_with_hd)
    then have hd: "hd w = c" "w \<noteq> []"
      by simp_all
    have "(length w = 1 \<and> asciiSpace (hd w)) \<or> (\<forall>b \<in> set w. RuneSelf \<le> of_char b)"
      using assms(1) that by (auto simp: good_tokens_def)
    then show False
      using hd assms(2,3) by (metis list.set_sel(1))
  qed
  then have "find (starts_with (c # cs)) ws = None"
    by (auto simp: find_None_iff)
  then show ?thesis
    by (subst strip_tokens.simps) simp
qed

lemma strip_tokens_dropWhile:
  "good_tokens ws \<Longrightarrow> strip_tokens ws (dropWhile asciiSpace s) = strip_tokens ws s"
  by (induction s) (auto simp: strip_tokens_space)
text \<open>\<^verbatim>\<open>TrimSpace\<close> against \<open>trim_space\<close>: the two scans first.\<close>

lemma scanStart_eq:
  "scanStart s =
     (let r = dropWhile asciiSpace s
      in if r \<noteq> [] \<and> RuneSelf \<le> of_char (hd r) then Slow r else Fast r)"
  by (induction s) (auto simp: Let_def dest: asciiSpace_ascii)

lemma scanStop_eq:
  "scanStop q =
     (let r = dropWhile asciiSpace q
      in if r \<noteq> [] \<and> RuneSelf \<le> of_char (hd r) then Slow (rev r) else Fast (rev r))"
  by (induction q) (auto simp: Let_def dest: asciiSpace_ascii)

lemma strip_trailing_Nil: "strip_trailing [] = []"
  by (simp add: strip_trailing_def strip_tokens_Nil)

lemma TrimSpace_trim_space:
  assumes U: "\<And>x. set x \<subseteq> set s \<Longrightarrow> \<exists>b \<in> set x. RuneSelf \<le> of_char b \<Longrightarrow> uni x = trim_space x"
  shows "TrimSpace uni s = trim_space s"
proof -
  let ?r = "dropWhile asciiSpace s"
  let ?rv = "map rev white_space"
  have ts: "trim_space s = strip_trailing (strip_tokens white_space ?r)"
    by (simp add: trim_space_def strip_leading_def strip_tokens_dropWhile [OF good_white_space])
  show ?thesis
  proof (cases ?r)
    case Nil
    have "trim_space s = []"
      unfolding ts Nil by (simp add: strip_tokens_Nil strip_trailing_Nil)
    moreover have "TrimSpace uni s = []"
      unfolding TrimSpace_def scanStart_eq Let_def Nil by simp
    ultimately show ?thesis by simp
  next
    case (Cons c cs)
    have sub: "set ?r \<subseteq> set s"
      by (auto dest: set_dropWhileD)
    have nsp: "\<not> asciiSpace c"
      using Cons hd_dropWhile [of asciiSpace s] by auto
    show ?thesis
    proof (cases "RuneSelf \<le> of_char c")
      case True
      have "TrimSpace uni s = uni ?r"
        unfolding TrimSpace_def scanStart_eq Let_def Cons using True by simp
      also have "\<dots> = trim_space ?r"
        using U [OF sub] True Cons by auto
      also have "\<dots> = strip_trailing (strip_tokens white_space ?r)"
        by (simp add: trim_space_def strip_leading_def)
      also have "\<dots> = trim_space s"
        by (rule ts [symmetric])
      finally show ?thesis .
    next
      case False
      let ?q = "dropWhile asciiSpace (rev ?r)"
      have start: "scanStart s = Fast ?r"
        unfolding scanStart_eq Let_def Cons using False by simp
      have keep: "strip_tokens white_space ?r = ?r"
        unfolding Cons by (rule strip_tokens_ascii [OF good_white_space nsp False])
      have behind: "strip_tokens ?rv (rev ?r) = strip_tokens ?rv ?q"
        by (rule strip_tokens_dropWhile [OF good_white_space_rev, symmetric])
      have spec: "trim_space s = rev (strip_tokens ?rv ?q)"
        unfolding ts keep strip_trailing_def behind ..
      have q: "?q = dropWhile asciiSpace (rev cs) @ [c]"
        unfolding Cons using nsp by (simp add: dropWhile_append3)
      have "?q \<noteq> []"
        unfolding q by simp
      then obtain d ds where qd: "?q = d # ds"
        by (meson neq_Nil_conv)
      have dnsp: "\<not> asciiSpace d"
        using qd hd_dropWhile [of asciiSpace "rev ?r"] by auto
      have stop: "scanStop (rev ?r) = (if RuneSelf \<le> of_char d then Slow (rev ?q) else Fast (rev ?q))"
        unfolding scanStop_eq Let_def qd by simp
      show ?thesis
      proof (cases "RuneSelf \<le> of_char d")
        case d_ascii: False
        have "strip_tokens ?rv ?q = ?q"
          unfolding qd by (rule strip_tokens_ascii [OF good_white_space_rev dnsp d_ascii])
        moreover have "TrimSpace uni s = rev ?q"
          unfolding TrimSpace_def start using stop d_ascii by simp
        ultimately show ?thesis
          unfolding spec by simp
      next
        case d_high: True
        have t: "TrimSpace uni s = uni (rev ?q)"
          unfolding TrimSpace_def start using stop d_high by simp
        have "set ?q \<subseteq> set (rev ?r)"
          by (auto dest: set_dropWhileD)
        then have "set (rev ?q) \<subseteq> set s"
          using sub by auto
        moreover have "\<exists>b \<in> set (rev ?q). RuneSelf \<le> of_char b"
          unfolding qd using d_high by auto
        ultimately have u: "uni (rev ?q) = trim_space (rev ?q)"
          by (rule U)
        have rq: "rev ?q = c # rev (dropWhile asciiSpace (rev cs))"
          unfolding q by simp
        have "strip_tokens white_space (rev ?q) = rev ?q"
          unfolding rq by (rule strip_tokens_ascii [OF good_white_space nsp False])
        then have "trim_space (rev ?q) = rev (strip_tokens ?rv ?q)"
          by (simp add: trim_space_def strip_leading_def strip_trailing_def)
        then show ?thesis
          unfolding t u spec .
      qed
    qed
  qed
qed

lemma yielded_command_lines:
  assumes "\<And>p. p \<in> set (physical_lines f) \<Longrightarrow>
             TrimSpace uni (strip_comment p) = trim_space (strip_comment p)"
  shows "yielded uni f = command_lines f"
proof -
  have m: "map (\<lambda>l. TrimSpace uni (strip_comment l)) (physical_lines f)
          = map (\<lambda>l. trim_space (strip_comment l)) (physical_lines f)"
    using assms by (intro map_cong) auto
  show ?thesis
    unfolding yielded_def command_lines_def m ..
qed

section \<open>Properties of the Line Source\<close>

text \<open>
  C2. For every command file (read to its end without a read error) the lines the Line
  Source yields are the file's physical lines, each cut at its first \<open>;\<close>, with the white
  space at both ends trimmed, without those that became empty, in the original order; the
  producer then closes the channel. (A file whose reading fails after the bytes \<open>f\<close>
  yields the same lines for \<open>f\<close> before the process exits.) This holds for every file when
  the library's Unicode-aware trimming \<open>uni\<close>, which \<^verbatim>\<open>TrimSpace\<close> calls on a slice
  that begins or ends with a non-ASCII byte, is the trimming of white space; and it holds
  whatever \<open>uni\<close> does for every file whose lines have only ASCII bytes before their
  comment. The file \<^verbatim>\<open>G28 ; home\n\nG1 X10\n\<close> yields exactly \<open>G28\<close> and \<open>G1 X10\<close>.
\<close>

theorem gcodeLines_yields_command_lines:
  "((\<forall>s. uni s = trim_space s) \<longrightarrow>
      gcodeLines uni \<lparr>pending = f, at_end = EOF\<rparr> = (command_lines f, Closed)
      \<and> fst (gcodeLines uni \<lparr>pending = f, at_end = e\<rparr>) = command_lines f)
   \<and> ((\<forall>p \<in> set (physical_lines f). \<forall>c \<in> set (strip_comment p). of_char c < (128::nat)) \<longrightarrow>
      gcodeLines uni \<lparr>pending = f, at_end = EOF\<rparr> = (command_lines f, Closed)
      \<and> fst (gcodeLines uni \<lparr>pending = f, at_end = e\<rparr>) = command_lines f)
   \<and> gcodeLines uni
        \<lparr>pending = ''G28 ; home'' @ [nl] @ [nl] @ ''G1 X10'' @ [nl], at_end = EOF\<rparr>
       = ([''G28'', ''G1 X10''], Closed)"
proof (intro conjI impI)
  assume "\<forall>s. uni s = trim_space s"
  then have y: "yielded uni f = command_lines f"
    by (intro yielded_command_lines TrimSpace_trim_space) simp
  show "gcodeLines uni \<lparr>pending = f, at_end = EOF\<rparr> = (command_lines f, Closed)"
    by (simp add: gcodeLines_def gcodeLoop_lines y)
  show "fst (gcodeLines uni \<lparr>pending = f, at_end = e\<rparr>) = command_lines f"
    by (simp add: gcodeLines_def gcodeLoop_lines y)
next
  assume a: "\<forall>p \<in> set (physical_lines f). \<forall>c \<in> set (strip_comment p). of_char c < (128::nat)"
  have y: "yielded uni f = command_lines f"
  proof (rule yielded_command_lines)
    fix p assume p: "p \<in> set (physical_lines f)"
    show "TrimSpace uni (strip_comment p) = trim_space (strip_comment p)"
    proof (rule TrimSpace_trim_space)
      fix x assume "set x \<subseteq> set (strip_comment p)" and "\<exists>b \<in> set x. RuneSelf \<le> of_char b"
      then obtain b where b: "b \<in> set (strip_comment p)" and h: "RuneSelf \<le> of_char b"
        by auto
      have "of_char b < (128::nat)"
        using a p b by blast
      then have False
        using h by (simp add: RuneSelf_def)
      then show "uni x = trim_space x" ..
    qed
  qed
  show "gcodeLines uni \<lparr>pending = f, at_end = EOF\<rparr> = (command_lines f, Closed)"
    by (simp add: gcodeLines_def gcodeLoop_lines y)
  show "fst (gcodeLines uni \<lparr>pending = f, at_end = e\<rparr>) = command_lines f"
    by (simp add: gcodeLines_def gcodeLoop_lines y)
next
  show "gcodeLines uni
          \<lparr>pending = ''G28 ; home'' @ [nl] @ [nl] @ ''G1 X10'' @ [nl], at_end = EOF\<rparr>
        = ([''G28'', ''G1 X10''], Closed)"
    by (simp add: gcodeLines_def gcodeLoop.simps ReadBytes_def cut_comment_def nl_def
          TrimSpace_def asciiSpace_def RuneSelf_def Let_def)
qed

theorem gcodeLines_yields_command_lines_witness:
  "gcodeLines trim_space
     \<lparr>pending = [CHR 0xC2, CHR 0xA0] @ ''G28 ; home'' @ [CHR 0x0D, nl] @ [nl]
                @ [CHR 0x09] @ ''G1 X10'' @ [CHR 0xE3, CHR 0x80, CHR 0x80] @ [nl],
      at_end = EOF\<rparr>
     = ([''G28'', ''G1 X10''], Closed)
   \<and> gcodeLines (\<lambda>s. ''?'')
       \<lparr>pending = ''  G28 ;'' @ [CHR 0xC3, CHR 0xA9] @ [CHR 0x0D, nl] @ [CHR 0x09]
                  @ ''G1 X10 '' @ [nl],
        at_end = EOF\<rparr>
     = ([''G28'', ''G1 X10''], Closed)"
proof -
  let ?f1 = "[CHR 0xC2, CHR 0xA0] @ ''G28 ; home'' @ [CHR 0x0D, nl] @ [nl]
                @ [CHR 0x09] @ ''G1 X10'' @ [CHR 0xE3, CHR 0x80, CHR 0x80] @ [nl]"
  let ?f2 = "''  G28 ;'' @ [CHR 0xC3, CHR 0xA9] @ [CHR 0x0D, nl] @ [CHR 0x09]
                  @ ''G1 X10 '' @ [nl]"
  have h1: "\<forall>s. trim_space s = trim_space s"
    by simp
  have c1: "command_lines ?f1 = [''G28'', ''G1 X10'']"
    by code_simp
  have h2: "\<forall>p \<in> set (physical_lines ?f2). \<forall>c \<in> set (strip_comment p). of_char c < (128::nat)"
    by code_simp
  have c2: "command_lines ?f2 = [''G28'', ''G1 X10'']"
    by code_simp
  have g1: "gcodeLines trim_space \<lparr>pending = ?f1, at_end = EOF\<rparr> = (command_lines ?f1, Closed)"
    using gcodeLines_yields_command_lines [of trim_space ?f1 EOF] h1 by blast
  have g2: "gcodeLines (\<lambda>s. ''?'') \<lparr>pending = ?f2, at_end = EOF\<rparr> = (command_lines ?f2, Closed)"
    using gcodeLines_yields_command_lines [of "\<lambda>s. ''?''" ?f2 EOF] h2 by blast
  show ?thesis
    unfolding g1 g2 c1 c2 by simp
qed

text \<open>
  C9. When the last physical line of the file has no terminating newline, the Line Source
  still yields it (cut and trimmed, unless that leaves nothing) after the lines before it,
  and then closes the channel.
\<close>

theorem gcodeLines_unterminated_last_line:
  assumes "before = [] \<or> last before = nl" and "l \<noteq> []" and "nl \<notin> set l"
  shows "gcodeLines uni \<lparr>pending = before @ l, at_end = EOF\<rparr> =
           (fst (gcodeLines uni \<lparr>pending = before, at_end = EOF\<rparr>)
              @ (if length (TrimSpace uni (cut_comment l)) = 0 then []
                 else [TrimSpace uni (cut_comment l)]),
            Closed)"
  using physical_lines_snoc [OF assms]
  by (simp add: gcodeLines_def gcodeLoop_lines yielded_def cut_comment_takeWhile)

theorem gcodeLines_unterminated_last_line_witness:
  "gcodeLines (\<lambda>s. s) \<lparr>pending = (''G28 ; home'' @ [nl]) @ '' G1 X10 ; go'', at_end = EOF\<rparr>
     = ([''G28'', ''G1 X10''], Closed)"
  using gcodeLines_unterminated_last_line [of "''G28 ; home'' @ [nl]" "'' G1 X10 ; go''" "\<lambda>s. s"]
  by (simp add: gcodeLines_def gcodeLoop.simps ReadBytes_def cut_comment_def nl_def
        TrimSpace_def asciiSpace_def RuneSelf_def Let_def)

section \<open>Properties of the Fixed Sequence Source\<close>

lemma stopLoop_value:
  "stopLoop \<lparr>pending = stop_gcode, at_end = EOF\<rparr>
     = ([''M107'', ''M104 S0'', ''M140 S0'', ''G1 Z50'', ''M84 Z E''], Some EOF)"
  by (simp add: stop_gcode_def stopLoop.simps ReadBytes_def nl_def Let_def)

lemma stopGCode_value: "stopGCode = [''M107'', ''M104 S0'', ''M140 S0'', ''G1 Z50'', ''M84 Z E'']"
  by (simp add: stopGCode_def stopLoop_value)

section \<open>Properties of the Transport Reader\<close>

text \<open>
  Projections of the reader's trace: \<open>printed\<close> selects the terminal output, \<open>shown ln\<close>
  is the terminal line for the reply line \<open>ln\<close>, \<open>final_error\<close> is the error of the
  last pulse (\<^verbatim>\<open>io.EOF\<close> when the scanner reports none).
\<close>

fun printed :: "rx \<Rightarrow> bool" where
  "printed (Printed s) = True"
| "printed _ = False"

definition final_error :: "error option \<Rightarrow> error" where
  "final_error e = (case e of None \<Rightarrow> EOF | Some x \<Rightarrow> x)"

definition shown :: "string \<Rightarrow> rx" where
  "shown ln = Printed (''<< '' @ ln @ [nl])"

text \<open>
  The lines of the reply blocks that are complete: every line when the input ends (the end
  completes the last block), and on a port that stays open the lines up to and including
  the last \<open>ok\<close>.
\<close>

definition completed :: "port_end \<Rightarrow> string list \<Rightarrow> string list" where
  "completed pe ts =
     (case pe of
        Ends e \<Rightarrow> ts
      | StaysOpen \<Rightarrow> rev (dropWhile (\<lambda>l. l \<noteq> ''ok'') (rev ts)))"

lemma recvScan_eq:
  "recvScan pe acc ts =
     (if ''ok'' \<in> set ts
      then Some (acc @ filter (\<lambda>l. l \<noteq> []) (takeWhile (\<lambda>l. l \<noteq> ''ok'') ts), True,
                 tl (dropWhile (\<lambda>l. l \<noteq> ''ok'') ts))
      else (case pe of
              StaysOpen \<Rightarrow> None
            | Ends e \<Rightarrow> Some (acc @ filter (\<lambda>l. l \<noteq> []) ts, False, [])))"
  by (induction ts arbitrary: acc) (auto split: port_end.splits)

lemma recvChanLoop_block:
  assumes "''ok'' \<notin> set pre"
  shows "recvChanLoop \<lparr>tokens = pre @ ''ok'' # rest, scan_end = pe\<rparr> =
           map Scanned (pre @ [''ok'']) @ map shown (filter (\<lambda>l. l \<noteq> []) pre)
           @ [Pulse None] @ recvChanLoop \<lparr>tokens = rest, scan_end = pe\<rparr>"
proof -
  have tw: "takeWhile (\<lambda>l. l \<noteq> ''ok'') (pre @ ''ok'' # rest) = pre"
    using assms by (induction pre) auto
  have dw: "dropWhile (\<lambda>l. l \<noteq> ''ok'') (pre @ ''ok'' # rest) = ''ok'' # rest"
    using assms by (induction pre) auto
  have rs: "recvScan pe [] (pre @ ''ok'' # rest) = Some (filter (\<lambda>l. l \<noteq> []) pre, True, rest)"
    by (simp only: recvScan_eq tw dw) simp
  show ?thesis
    by (subst recvChanLoop.simps) (simp add: serialRecv_def rs shown_def)
qed

lemma recvChanLoop_tail:
  assumes "''ok'' \<notin> set ts"
  shows "recvChanLoop \<lparr>tokens = ts, scan_end = Ends e\<rparr> =
           map Scanned ts @ map shown (filter (\<lambda>l. l \<noteq> []) ts) @ [Pulse (Some (final_error e))]"
proof -
  have rs: "recvScan (Ends e) [] ts = Some (filter (\<lambda>l. l \<noteq> []) ts, False, [])"
    using assms by (simp add: recvScan_eq)
  show ?thesis
    by (subst recvChanLoop.simps) (simp add: serialRecv_def rs shown_def final_error_def Err_def)
qed

lemma recvChanLoop_waiting:
  assumes "''ok'' \<notin> set ts"
  shows "recvChanLoop \<lparr>tokens = ts, scan_end = StaysOpen\<rparr> = map Scanned ts"
proof -
  have rs: "recvScan StaysOpen [] ts = None"
    using assms by (simp add: recvScan_eq)
  show ?thesis
    by (subst recvChanLoop.simps) (simp add: serialRecv_def rs)
qed

lemma split_at_ok:
  "''ok'' \<in> set ts \<Longrightarrow> \<exists>pre rest. ts = pre @ ''ok'' # rest \<and> ''ok'' \<notin> set pre"
  by (meson split_list_first)

lemma scanned_only:
  "''ok'' \<notin> set ts \<Longrightarrow>
   concat (map (\<lambda>ln. if ln = ''ok'' then [Scanned ln, Pulse None] else [Scanned ln]) ts)
     = map Scanned ts"
  by (induction ts) auto

lemma recvChanLoop_control:
  "filter (\<lambda>a. \<not> printed a) (recvChanLoop \<lparr>tokens = ts, scan_end = pe\<rparr>) =
     concat (map (\<lambda>ln. if ln = ''ok'' then [Scanned ln, Pulse None] else [Scanned ln]) ts)
     @ (case pe of StaysOpen \<Rightarrow> [] | Ends e \<Rightarrow> [Pulse (Some (final_error e))])"
proof (induction ts rule: length_induct)
  case (1 ts)
  show ?case
  proof (cases "''ok'' \<in> set ts")
    case False
    then show ?thesis
      by (cases pe)
         (simp_all add: recvChanLoop_tail recvChanLoop_waiting scanned_only filter_map comp_def
            shown_def)
  next
    case True
    then obtain pre rest where ts: "ts = pre @ ''ok'' # rest" and pre: "''ok'' \<notin> set pre"
      using split_at_ok by blast
    have ih: "filter (\<lambda>a. \<not> printed a) (recvChanLoop \<lparr>tokens = rest, scan_end = pe\<rparr>) =
       concat (map (\<lambda>ln. if ln = ''ok'' then [Scanned ln, Pulse None] else [Scanned ln]) rest)
       @ (case pe of StaysOpen \<Rightarrow> [] | Ends e \<Rightarrow> [Pulse (Some (final_error e))])"
      using "1.IH" ts by simp
    show ?thesis
      by (simp add: ts recvChanLoop_block [OF pre] ih scanned_only [OF pre] filter_map comp_def
            shown_def)
  qed
qed

lemma completed_no_ok: "''ok'' \<notin> set ts \<Longrightarrow> completed StaysOpen ts = []"
  by (auto simp: completed_def)

lemma completed_block:
  "completed pe (pre @ ''ok'' # rest) = pre @ ''ok'' # completed pe rest"
proof (cases pe)
  case StaysOpen
  show ?thesis
  proof (cases "''ok'' \<in> set rest")
    case True
    then obtain x where "x \<in> set (rev rest)" and "\<not> x \<noteq> ''ok''"
      by auto
    then have "dropWhile (\<lambda>l. l \<noteq> ''ok'') (rev rest @ ''ok'' # rev pre)
                 = dropWhile (\<lambda>l. l \<noteq> ''ok'') (rev rest) @ ''ok'' # rev pre"
      by (rule dropWhile_append1)
    then show ?thesis
      by (simp add: completed_def StaysOpen)
  next
    case False
    have "dropWhile (\<lambda>l. l \<noteq> ''ok'') (xs @ ''ok'' # ys) = ''ok'' # ys
          \<and> dropWhile (\<lambda>l. l \<noteq> ''ok'') xs = []"
      if "''ok'' \<notin> set xs" for xs ys :: "string list"
      using that by (induction xs) auto
    from this [of "rev rest" "rev pre"] False
    have "dropWhile (\<lambda>l. l \<noteq> ''ok'') (rev rest @ ''ok'' # rev pre) = ''ok'' # rev pre"
      and "dropWhile (\<lambda>l. l \<noteq> ''ok'') (rev rest) = []"
      by simp_all
    then show ?thesis
      by (simp add: completed_def StaysOpen)
  qed
next
  case (Ends e)
  then show ?thesis by (simp add: completed_def)
qed

lemma recvChanLoop_printed:
  "filter printed (recvChanLoop \<lparr>tokens = ts, scan_end = pe\<rparr>) =
     map shown (filter (\<lambda>ln. ln \<noteq> ''ok'' \<and> ln \<noteq> []) (completed pe ts))"
proof (induction ts rule: length_induct)
  case (1 ts)
  show ?case
  proof (cases "''ok'' \<in> set ts")
    case False
    then have f: "filter (\<lambda>ln. ln \<noteq> ''ok'' \<and> ln \<noteq> []) ts = filter (\<lambda>l. l \<noteq> []) ts"
      by (induction ts) auto
    show ?thesis
    proof (cases pe)
      case StaysOpen
      then show ?thesis
        using False by (simp add: recvChanLoop_waiting completed_no_ok filter_map comp_def)
    next
      case (Ends e)
      then show ?thesis
        using False f
        by (simp add: recvChanLoop_tail completed_def filter_map comp_def shown_def)
    qed
  next
    case True
    then obtain pre rest where ts: "ts = pre @ ''ok'' # rest" and pre: "''ok'' \<notin> set pre"
      using split_at_ok by blast
    have c: "filter (\<lambda>ln. ln \<noteq> ''ok'' \<and> ln \<noteq> []) pre = filter (\<lambda>l. l \<noteq> []) pre"
      using pre by (induction pre) auto
    have ih: "filter printed (recvChanLoop \<lparr>tokens = rest, scan_end = pe\<rparr>) =
       map shown (filter (\<lambda>ln. ln \<noteq> ''ok'' \<and> ln \<noteq> []) (completed pe rest))"
      using "1.IH" ts by simp
    show ?thesis
      by (simp add: ts recvChanLoop_block [OF pre] ih c completed_block filter_map comp_def
            shown_def)
  qed
qed

text \<open>
  C5. Leaving the terminal output aside, the reader's trace is: one pulse without error,
  before any line is scanned; then the scanned lines in order, each \<open>ok\<close> followed at once
  by a pulse without error and no other pulse in between; and, when the scanner has no more
  lines, one pulse carrying an error, after which nothing follows. On a port that stays
  open the trace is the same without the last pulse.
\<close>

theorem serialRecvChan_pulses:
  "filter (\<lambda>a. \<not> printed a) (serialRecvChan \<lparr>tokens = ts, scan_end = Ends e\<rparr>) =
     Pulse None
     # concat (map (\<lambda>ln. if ln = ''ok'' then [Scanned ln, Pulse None] else [Scanned ln]) ts)
     @ [Pulse (Some (final_error e))]
   \<and> filter (\<lambda>a. \<not> printed a) (serialRecvChan \<lparr>tokens = ts, scan_end = StaysOpen\<rparr>) =
     Pulse None
     # concat (map (\<lambda>ln. if ln = ''ok'' then [Scanned ln, Pulse None] else [Scanned ln]) ts)"
  by (simp add: serialRecvChan_def recvChanLoop_control)

text \<open>
  C6 (as stated). Reply lines other than \<open>ok\<close> that are not shown. First the empty line:
  the transport delivers an empty line and then \<open>ok\<close>, and ends; the trace holds no
  terminal output. Then a line of a block that is not complete: the port delivers \<open>ok\<close>
  and \<open>T:200\<close> and stays open; \<open>T:200\<close> is scanned and not printed.
\<close>

theorem serialRecvChan_empty_line_hidden:
  "[] \<noteq> ''ok''
   \<and> serialRecvChan \<lparr>tokens = [[], ''ok''], scan_end = Ends None\<rparr>
       = [Pulse None, Scanned [], Scanned ''ok'', Pulse None, Pulse (Some EOF)]
   \<and> ''T:200'' \<noteq> ''ok''
   \<and> serialRecvChan \<lparr>tokens = [''ok'', ''T:200''], scan_end = StaysOpen\<rparr>
       = [Pulse None, Scanned ''ok'', Pulse None, Scanned ''T:200'']"
  by (simp add: serialRecvChan_def recvChanLoop.simps serialRecv_def Err_def)

text \<open>
  C6 (amended). The terminal shows, with the prefix of incoming traffic and in the order
  received, exactly the reply lines that are neither \<open>ok\<close> nor empty and belong to a
  complete reply block, that is a block ended by \<open>ok\<close> or by the end or failure of the
  input: for every sequence of transport lines, whether the input ends, fails or the port
  stays open.
\<close>

theorem serialRecvChan_shows_nonempty_lines:
  "filter printed (serialRecvChan \<lparr>tokens = ts, scan_end = pe\<rparr>) =
     map shown (filter (\<lambda>ln. ln \<noteq> ''ok'' \<and> ln \<noteq> []) (completed pe ts))"
  by (simp add: serialRecvChan_def recvChanLoop_printed)

section \<open>Properties of the Control Loop\<close>

text \<open>
  C4. The Fixed Sequence Source yields exactly \<open>M107\<close>, \<open>M104 S0\<close>, \<open>M140 S0\<close>,
  \<open>G1 Z50\<close>, \<open>M84 Z E\<close>, in that order. Whenever the menu returns "stop", whatever
  the loop's state was (also a stop sequence partly sent), the active feed is the whole
  sequence again, and the next five readiness pulses hand exactly these five lines to the
  writer.
\<close>

theorem stopGCode_fresh_sequence:
  "stopGCode = [''M107'', ''M104 S0'', ''M140 S0'', ''G1 Z50'', ''M84 Z E'']
   \<and> (status d = Running \<longrightarrow> controlMenu answers = Some ctrlStop \<longrightarrow>
        gcode (step now d (Interrupt answers))
          = StopFeed [''M107'', ''M104 S0'', ''M140 S0'', ''G1 Z50'', ''M84 Z E'']
        \<and> effects (run (step now d (Interrupt answers))
                     [(t1, Ready None), (t2, Ready None), (t3, Ready None),
                      (t4, Ready None), (t5, Ready None)])
          = effects d @ map (Send True) [''M107'', ''M104 S0'', ''M140 S0'', ''G1 Z50'', ''M84 Z E''])"
  by (simp add: stopGCode_value step_def pull_def send_def Let_def)

theorem stopGCode_fresh_sequence_witness:
  "status (run (newDripper [''G28''] 0) [(1, Ready None), (2, Interrupt [''s'']), (3, Ready None), (4, Ready None)])
     = Running
   \<and> controlMenu [''x'', ''s''] = Some ctrlStop
   \<and> gcode (run (newDripper [''G28''] 0) [(1, Ready None), (2, Interrupt [''s'']), (3, Ready None), (4, Ready None)])
       = StopFeed [''M140 S0'', ''G1 Z50'', ''M84 Z E'']
   \<and> gcode (step 7 (run (newDripper [''G28''] 0) [(1, Ready None), (2, Interrupt [''s'']), (3, Ready None), (4, Ready None)])
               (Interrupt [''x'', ''s'']))
       = StopFeed [''M107'', ''M104 S0'', ''M140 S0'', ''G1 Z50'', ''M84 Z E'']"
  using stopGCode_fresh_sequence
     [of "run (newDripper [''G28''] 0) [(1, Ready None), (2, Interrupt [''s'']), (3, Ready None), (4, Ready None)]"
         "[''x'', ''s'']" 7 8 9 10 11 12]
  by (simp add: stopGCode_value newDripper_def step_def pull_def send_def Let_def)

text \<open>
  The lines handed to the writer so far, and the readiness pulses among the events.
\<close>

fun send_line :: "effect \<Rightarrow> string list" where
  "send_line (Send b line) = [line]"
| "send_line _ = []"

definition sent :: "dripper \<Rightarrow> string list" where
  "sent d = concat (map send_line (effects d))"

fun is_pulse :: "event \<Rightarrow> bool" where
  "is_pulse (Ready err) = True"
| "is_pulse ReadyClosed = True"
| "is_pulse _ = False"

fun pulses :: "(int \<times> event) list \<Rightarrow> nat" where
  "pulses [] = 0"
| "pulses ((t, ev) # evs) = (if is_pulse ev then 1 else 0) + pulses evs"

definition flag :: "dripper \<Rightarrow> nat" where
  "flag d = (if ready d then 1 else 0)"

lemmas loop_defs = step_def pull_def send_def finish_def Let_def

lemma run_not_running: "status d \<noteq> Running \<Longrightarrow> run d evs = d"
  by (induction evs arbitrary: d) (auto simp: step_def)

lemma step_send_flag:
  "(\<forall>b line. Send b line \<in> set (effects d) \<longrightarrow> b) \<Longrightarrow>
   Send b line \<in> set (effects (step now d ev)) \<Longrightarrow> b"
  by (auto simp: loop_defs
           split: if_splits event.splits option.splits ctrlChoice.splits list.splits feed.splits)

lemma run_send_flag:
  "(\<forall>b line. Send b line \<in> set (effects d) \<longrightarrow> b) \<Longrightarrow>
   Send b line \<in> set (effects (run d evs)) \<Longrightarrow> b"
proof (induction evs arbitrary: d)
  case Nil
  then show ?case by auto
next
  case (Cons a evs)
  obtain now ev where a: "a = (now, ev)" by (cases a)
  have "\<forall>b line. Send b line \<in> set (effects (step now d ev)) \<longrightarrow> b"
    using Cons.prems(1) step_send_flag by blast
  then show ?case
    using Cons.IH [of "step now d ev"] Cons.prems(2) a by simp
qed

lemma step_count:
  "length (sent (step now d ev)) + flag (step now d ev)
     \<le> length (sent d) + flag d + (if is_pulse ev then 1 else 0)"
  by (auto simp: loop_defs sent_def flag_def
           split: if_splits event.splits option.splits ctrlChoice.splits list.splits feed.splits)

lemma run_count:
  "length (sent (run d evs)) + flag (run d evs) \<le> length (sent d) + flag d + pulses evs"
proof (induction evs arbitrary: d)
  case Nil
  then show ?case by simp
next
  case (Cons a evs)
  obtain now ev where a: "a = (now, ev)" by (cases a)
  have "length (sent (run (step now d ev) evs)) + flag (run (step now d ev) evs)
          \<le> length (sent (step now d ev)) + flag (step now d ev) + pulses evs"
    by (rule Cons.IH)
  also have "\<dots> \<le> length (sent d) + flag d + (if is_pulse ev then 1 else 0) + pulses evs"
    using step_count [of now d ev] by simp
  finally show ?case
    by (simp add: a)
qed

lemma step_quiet:
  "\<not> is_pulse ev \<Longrightarrow> \<not> ready d \<Longrightarrow>
   \<not> ready (step now d ev) \<and> sent (step now d ev) = sent d"
  by (auto simp: loop_defs sent_def
           split: if_splits event.splits option.splits ctrlChoice.splits list.splits feed.splits)

lemma run_quiet:
  "pulses evs = 0 \<Longrightarrow> \<not> ready d \<Longrightarrow> \<not> ready (run d evs) \<and> sent (run d evs) = sent d"
proof (induction evs arbitrary: d)
  case Nil
  then show ?case by simp
next
  case (Cons a evs)
  obtain now ev where a: "a = (now, ev)" by (cases a)
  have np: "\<not> is_pulse ev" and rest: "pulses evs = 0"
    using Cons.prems(1) by (auto simp: a split: if_splits)
  have q: "\<not> ready (step now d ev) \<and> sent (step now d ev) = sent d"
    using step_quiet [OF np Cons.prems(2)] .
  show ?case
    using Cons.IH [OF rest, of "step now d ev"] q by (simp add: a)
qed

lemma step_sends_clears:
  "sent (step now d ev) \<noteq> sent d \<Longrightarrow> \<not> ready (step now d ev)"
  by (auto simp: loop_defs sent_def
           split: if_splits event.splits option.splits ctrlChoice.splits list.splits feed.splits)

text \<open>
  C3. (1) In every state the loop reaches from its start, for every sequence of operator
  lines, interrupts and readiness pulses, each line was handed to the writer by a call of
  \<open>send\<close> made while the Readiness Flag was true. (2) From any state, after an iteration
  that sends, the flag is false and stays false, and nothing more is sent, as long as no
  readiness pulse arrives. (3) Over any run the lines sent, plus one if the flag is up at
  the end, are at most the pulses received plus one if the flag was up at the beginning: at
  most one command is in flight.
\<close>

theorem one_command_in_flight:
  "(\<forall>b line. Send b line \<in> set (effects (run (newDripper file t0) evs)) \<longrightarrow> b)
   \<and> (sent (step now d ev) \<noteq> sent d \<longrightarrow> pulses quiet = 0 \<longrightarrow>
        \<not> ready (run (step now d ev) quiet)
        \<and> sent (run (step now d ev) quiet) = sent (step now d ev))
   \<and> length (sent (run d evs)) + flag (run d evs) \<le> length (sent d) + flag d + pulses evs"
proof (intro conjI allI impI)
  fix b line
  assume "Send b line \<in> set (effects (run (newDripper file t0) evs))"
  then show b
    using run_send_flag [of "newDripper file t0" b line evs] by (simp add: newDripper_def)
next
  assume s: "sent (step now d ev) \<noteq> sent d" and q: "pulses quiet = 0"
  show "\<not> ready (run (step now d ev) quiet)"
    using run_quiet [OF q step_sends_clears [OF s]] by simp
  show "sent (run (step now d ev) quiet) = sent (step now d ev)"
    using run_quiet [OF q step_sends_clears [OF s]] by simp
next
  show "length (sent (run d evs)) + flag (run d evs) \<le> length (sent d) + flag d + pulses evs"
    by (rule run_count)
qed

theorem one_command_in_flight_witness:
  "Send True ''G28'' \<in> set (effects (run (newDripper [''G28'', ''G1 X10''] 0) [(1, Ready None)]))
   \<and> sent (step 1 (newDripper [''G28'', ''G1 X10''] 0) (Ready None))
        \<noteq> sent (newDripper [''G28'', ''G1 X10''] 0)
   \<and> pulses [(2, UserLine ''M105''), (3, Interrupt [''h'']), (4, UserLine ''M114'')] = 0
   \<and> \<not> ready (run (step 1 (newDripper [''G28'', ''G1 X10''] 0) (Ready None))
                  [(2, UserLine ''M105''), (3, Interrupt [''h'']), (4, UserLine ''M114'')])
   \<and> sent (run (step 1 (newDripper [''G28'', ''G1 X10''] 0) (Ready None))
               [(2, UserLine ''M105''), (3, Interrupt [''h'']), (4, UserLine ''M114'')])
       = [''G28'']"
  using one_command_in_flight
     [of "[''G28'', ''G1 X10'']" 0 "[(1, Ready None)]" 1 "newDripper [''G28'', ''G1 X10''] 0"
         "Ready None" "[(2, UserLine ''M105''), (3, Interrupt [''h'']), (4, UserLine ''M114'')]"]
  by (simp add: newDripper_def loop_defs sent_def)

lemma step_start: "start (step now d ev) = start d"
  by (auto simp: loop_defs
           split: if_splits event.splits option.splits ctrlChoice.splits list.splits feed.splits)

lemma run_start: "start (run d evs) = start d"
proof (induction evs arbitrary: d)
  case Nil
  show ?case by simp
next
  case (Cons a evs)
  then show ?case by (cases a) (simp add: step_start)
qed

text \<open>
  C7. When the running loop receives a readiness pulse that carries an error, or finds the
  readiness channel closed, it stops: it closes the writer's channel and reports the time
  elapsed since the loop's start (after logging the error, if there is one), sends nothing
  in that iteration, and no later event changes anything.
\<close>

theorem error_pulse_terminates:
  assumes "d = run (newDripper file t0) before" and "status d = Running"
    and "ev = Ready (Some e) \<or> ev = ReadyClosed"
  shows "status (step now d ev) = Stopped
         \<and> effects (step now d ev)
             = effects d @ (case ev of Ready (Some x) \<Rightarrow> [LogErr x] | _ \<Rightarrow> [])
               @ [CloseSend, Elapsed (now - t0)]
         \<and> sent (step now d ev) = sent d
         \<and> run (step now d ev) after = step now d ev"
proof -
  have t0: "start d = t0"
    using assms(1) by (simp add: run_start newDripper_def)
  have st: "status (step now d ev) = Stopped"
    using assms(2,3) by (auto simp: loop_defs)
  have ef: "effects (step now d ev)
             = effects d @ (case ev of Ready (Some x) \<Rightarrow> [LogErr x] | _ \<Rightarrow> [])
               @ [CloseSend, Elapsed (now - t0)]"
    using assms(2,3) t0 by (auto simp: loop_defs)
  have sn: "sent (step now d ev) = sent d"
    using assms(3) by (auto simp: ef sent_def)
  have fr: "run (step now d ev) after = step now d ev"
    using st by (simp add: run_not_running)
  show ?thesis
    using st ef sn fr by simp
qed

theorem error_pulse_terminates_witness:
  "status (run (newDripper [''G28'', ''G1 X10''] 100) [(101, Ready None)]) = Running
   \<and> effects (step 160 (run (newDripper [''G28'', ''G1 X10''] 100) [(101, Ready None)])
                (Ready (Some EOF)))
       = [Send True ''G28'', LogErr EOF, CloseSend, Elapsed 60]
   \<and> run (step 160 (run (newDripper [''G28'', ''G1 X10''] 100) [(101, Ready None)])
             (Ready (Some EOF)))
         [(170, Ready None), (171, Interrupt [''h'']), (172, UserLine ''M105'')]
       = step 160 (run (newDripper [''G28'', ''G1 X10''] 100) [(101, Ready None)])
           (Ready (Some EOF))"
  using error_pulse_terminates
     [of "run (newDripper [''G28'', ''G1 X10''] 100) [(101, Ready None)]"
         "[''G28'', ''G1 X10'']" 100 "[(101, Ready None)]" "Ready (Some EOF)" EOF 160
         "[(170, Ready None), (171, Interrupt [''h'']), (172, UserLine ''M105'')]"]
  by (simp add: newDripper_def loop_defs)

text \<open>
  The file feed is at rest when the loop is in hacker mode, or draws from another feed, or
  no longer runs; an event selects the file feed when it is an interrupt whose menu returns
  "continue".
\<close>

definition file_parked :: "dripper \<Rightarrow> bool" where
  "file_parked d = (hack_mode d \<or> gcode d \<noteq> FileFeed \<or> status d \<noteq> Running)"

fun selects_file :: "event \<Rightarrow> bool" where
  "selects_file (Interrupt answers) = (controlMenu answers = Some ctrlContinue)"
| "selects_file _ = False"

lemma step_parked:
  "file_parked d \<Longrightarrow> \<not> selects_file ev \<Longrightarrow>
   file_parked (step now d ev) \<and> gcode_file (step now d ev) = gcode_file d"
  by (auto simp: loop_defs file_parked_def
           split: if_splits event.splits option.splits ctrlChoice.splits list.splits feed.splits)

lemma run_parked:
  "file_parked d \<Longrightarrow> \<forall>(t, ev) \<in> set evs. \<not> selects_file ev \<Longrightarrow>
   file_parked (run d evs) \<and> gcode_file (run d evs) = gcode_file d"
proof (induction evs arbitrary: d)
  case Nil
  then show ?case by simp
next
  case (Cons a evs)
  obtain now ev where a: "a = (now, ev)" by (cases a)
  have ns: "\<not> selects_file ev" and rest: "\<forall>(t, ev) \<in> set evs. \<not> selects_file ev"
    using Cons.prems(2) by (auto simp: a)
  have p: "file_parked (step now d ev) \<and> gcode_file (step now d ev) = gcode_file d"
    using step_parked [OF Cons.prems(1) ns] .
  show ?case
    using Cons.IH [of "step now d ev"] p rest by (simp add: a)
qed

lemma step_leaves_file:
  "controlMenu a = Some ctrlStop \<or> controlMenu a = Some ctrlHackerMode \<Longrightarrow>
   file_parked (step now d (Interrupt a)) \<and> gcode_file (step now d (Interrupt a)) = gcode_file d"
  by (auto simp: loop_defs file_parked_def)

lemma step_file_position:
  "gcode_file (step now d ev) = gcode_file d
   \<or> (\<exists>line. gcode_file d = line # gcode_file (step now d ev)
              \<and> effects (step now d ev) = effects d @ [Send True line])"
  by (auto simp: loop_defs
           split: if_splits event.splits option.splits ctrlChoice.splits list.splits feed.splits)

text \<open>
  C8. Let the menu switch away from the file feed (to the fixed sequence or to hacker
  mode), let any events follow in which the menu never returns "continue" (further
  switches, operator lines, readiness pulses), and let the menu then return "continue"
  while the loop still runs. Then the file feed is selected, the lines it will deliver are
  the ones it would have delivered before the first switch, and the next readiness pulse
  sends the first of them and advances the feed by that line (or, the file being
  exhausted, ends the loop). Moreover no iteration changes the file feed's position other
  than by sending the line at its head.
\<close>

theorem file_feed_resumes:
  assumes "controlMenu a = Some ctrlStop \<or> controlMenu a = Some ctrlHackerMode"
    and "\<forall>(t, ev) \<in> set evs. \<not> selects_file ev"
    and "controlMenu c = Some ctrlContinue"
    and "status (run (step ta d (Interrupt a)) evs) = Running"
    and "d' = step tb (run (step ta d (Interrupt a)) evs) (Interrupt c)"
  shows "gcode d' = FileFeed \<and> gcode_file d' = gcode_file d
         \<and> (case gcode_file d of
               [] \<Rightarrow> status (step tc d' (Ready None)) = Stopped
             | line # rest \<Rightarrow>
                 effects (step tc d' (Ready None)) = effects d' @ [Send True line]
                 \<and> gcode_file (step tc d' (Ready None)) = rest)
         \<and> (gcode_file (step td dx ex) = gcode_file dx
            \<or> (\<exists>line. gcode_file dx = line # gcode_file (step td dx ex)
                       \<and> effects (step td dx ex) = effects dx @ [Send True line]))"
proof -
  let ?d1 = "run (step ta d (Interrupt a)) evs"
  have g1: "gcode_file ?d1 = gcode_file d"
    using run_parked [of "step ta d (Interrupt a)" evs] step_leaves_file [OF assms(1)] assms(2)
    by simp
  have sel: "gcode d' = FileFeed \<and> gcode_file d' = gcode_file ?d1 \<and> status d' = Running
             \<and> \<not> hack_mode d'"
    using assms(3,4,5) by (simp add: loop_defs)
  have nxt: "(case gcode_file d of
               [] \<Rightarrow> status (step tc d' (Ready None)) = Stopped
             | line # rest \<Rightarrow>
                 effects (step tc d' (Ready None)) = effects d' @ [Send True line]
                 \<and> gcode_file (step tc d' (Ready None)) = rest)"
    using sel g1 by (auto simp: loop_defs split: list.splits)
  show ?thesis
    using sel g1 nxt step_file_position [of td dx ex] by simp
qed

theorem file_feed_resumes_witness:
  "let d = run (newDripper [''G28'', ''G1 X10'', ''G1 X20''] 0) [(1, Ready None)];
       d' = step 8 (run (step 2 d (Interrupt [''s'']))
                      [(3, Ready None), (4, Interrupt [''h'']), (5, UserLine ''M105''),
                       (6, Interrupt [''l'', ''s'']), (7, Ready None)])
                   (Interrupt [''c''])
   in gcode_file d = [''G1 X10'', ''G1 X20'']
      \<and> sent d' = [''G28'', ''M107'', ''M107'']
      \<and> gcode d' = FileFeed \<and> gcode_file d' = [''G1 X10'', ''G1 X20'']
      \<and> effects (step 9 d' (Ready None)) = effects d' @ [Send True ''G1 X10'']
      \<and> gcode_file (step 9 d' (Ready None)) = [''G1 X20'']"
proof -
  let ?d = "run (newDripper [''G28'', ''G1 X10'', ''G1 X20''] 0) [(1, Ready None)]"
  let ?evs = "[(3, Ready None), (4, Interrupt [''h'']), (5, UserLine ''M105''),
               (6, Interrupt [''l'', ''s'']), (7, Ready None)]"
  let ?d' = "step 8 (run (step 2 ?d (Interrupt [''s''])) ?evs) (Interrupt [''c''])"
  have h1: "controlMenu [''s''] = Some ctrlStop \<or> controlMenu [''s''] = Some ctrlHackerMode"
    by simp
  have h2: "\<forall>(t, ev) \<in> set ?evs. \<not> selects_file ev"
    by simp
  have h3: "controlMenu [''c''] = Some ctrlContinue"
    by simp
  have h4: "status (run (step 2 ?d (Interrupt [''s''])) ?evs) = Running"
    by (simp add: newDripper_def loop_defs stopGCode_value)
  have d: "gcode_file ?d = [''G1 X10'', ''G1 X20'']"
    by (simp add: newDripper_def loop_defs)
  have s: "sent ?d' = [''G28'', ''M107'', ''M107'']"
    by (simp add: newDripper_def loop_defs stopGCode_value sent_def)
  note r = file_feed_resumes [OF h1 h2 h3 h4 refl, where tc = 9 and td = 0 and dx = ?d and ex = ReadyClosed]
  show ?thesis
    using r d s by (simp add: Let_def)
qed

text \<open>
  C10. Handling an interrupt leaves the Pending Queue (\<^verbatim>\<open>d.hack_queue\<close>) as it was,
  whatever the menu returns; in particular when the menu returns "hacker mode" the loop is
  in hacker mode again with the same queue.
\<close>

theorem interrupt_keeps_queue:
  "d_hack_queue (step now d (Interrupt answers)) = d_hack_queue d
   \<and> (status d = Running \<longrightarrow> controlMenu answers = Some ctrlHackerMode \<longrightarrow>
        hack_mode (step now d (Interrupt answers))
        \<and> status (step now d (Interrupt answers)) = Running)"
  by (auto simp: loop_defs split: option.splits ctrlChoice.splits)

theorem interrupt_keeps_queue_witness:
  "let d = run (newDripper [''G28''] 0)
             [(1, Ready None), (2, Interrupt [''h'']), (3, UserLine ''M105''),
              (4, UserLine ''M114'')]
   in status d = Running \<and> d_hack_queue d = [''M105'', ''M114'']
      \<and> d_hack_queue (step 5 d (Interrupt [''x'', ''h''])) = [''M105'', ''M114'']
      \<and> hack_mode (step 5 d (Interrupt [''x'', ''h'']))"
  using interrupt_keeps_queue
     [of 5 "run (newDripper [''G28''] 0)
             [(1, Ready None), (2, Interrupt [''h'']), (3, UserLine ''M105''),
              (4, UserLine ''M114'')]" "[''x'', ''h'']"]
  by (simp add: newDripper_def loop_defs)

text \<open>
  The local \<^verbatim>\<open>hack_queue\<close> is never assigned, so in hacker mode a readiness pulse that
  finds \<^verbatim>\<open>d.hack_queue\<close> non-empty indexes an empty slice: the loop panics and the queued
  lines are not sent.
\<close>

lemma step_local_queue: "hack_queue (step now d ev) = hack_queue d"
  by (auto simp: loop_defs
           split: if_splits event.splits option.splits ctrlChoice.splits list.splits feed.splits)

lemma run_local_queue: "hack_queue (run (newDripper file t0) evs) = []"
proof -
  have "hack_queue (run d evs) = hack_queue d" for d
  proof (induction evs arbitrary: d)
    case Nil
    show ?case by simp
  next
    case (Cons a evs)
    then show ?case by (cases a) (simp add: step_local_queue)
  qed
  then show ?thesis by (simp add: newDripper_def)
qed

lemma queued_line_panics:
  assumes "d = run (newDripper file t0) evs" and "status d = Running" and "hack_mode d"
    and "d_hack_queue d \<noteq> []"
  shows "status (step now d (Ready None)) = Panicked
         \<and> run (step now d (Ready None)) after = (d\<lparr>ready := True, status := Panicked\<rparr>)"
proof -
  have "hack_queue d = []"
    using assms(1) by (simp add: run_local_queue)
  then have s: "step now d (Ready None) = d\<lparr>ready := True, status := Panicked\<rparr>"
    using assms(2,3,4) by (simp add: loop_defs)
  then show ?thesis
    by (simp add: run_not_running)
qed

text \<open>
  C1 (the code at a failing input). The file feed has sent its first line; the operator
  enters hacker mode and types \<open>G28\<close> while that line is in flight, so \<open>G28\<close> is queued.
  At the next readiness pulse the loop panics: \<open>G28\<close> is still queued and was never handed
  to the writer.
\<close>

theorem hacker_queue_head_panics:
  "let d = run (newDripper [''G1 X1'', ''G1 X2''] 0)
             [(1, Ready None), (2, Interrupt [''h'']), (3, UserLine ''G28''), (4, Ready None)]
   in status d = Panicked \<and> d_hack_queue d = [''G28''] \<and> sent d = [''G1 X1'']"
  by (simp add: newDripper_def loop_defs sent_def)

end
